theory Spec2Isabelle
  imports Main "HOL-Library.Sublist" "HOL-Library.Char_ord" "HOL-Library.List_Lexorder"
    "HOL-Library.Multiset"
begin

section \<open>The local note store of the Flickr MCP server\<close>

text \<open>
  A shallow embedding of \<^verbatim>\<open>src/notes-db.ts\<close> (the JSON-file note store) and of the two
  note tools of \<^verbatim>\<open>src/tools/notes.ts\<close> that the properties below speak about.

  Conventions of the embedding.
  \<^item> The module variable \<^verbatim>\<open>data\<close> and the file \<^verbatim>\<open>notes.json\<close> form the state, a record
    that every operation takes and returns. \<^verbatim>\<open>data\<close> is \<open>None\<close> until \<^verbatim>\<open>initNotesDb\<close>
    has run; reading a property of it then throws a \<^verbatim>\<open>TypeError\<close>, which is the \<open>Inl\<close>
    branch of every operation.
  \<^item> The file is represented by the value its JSON text parses to: \<^verbatim>\<open>JSON.parse\<close> gives
    back what \<^verbatim>\<open>JSON.stringify\<close> was given, for objects of numbers, strings and arrays.
    Writes to the file succeed.
  \<^item> Identifiers and the counter are JavaScript numbers holding integers. They are
    integers here, and \<open>incr\<close> is what \<^verbatim>\<open>++\<close> computes on such a number: the successor
    from \<open>-2^53\<close> up to \<open>2^53 - 1\<close>, and the rounded sum beyond, where the counter stays
    at \<open>2^53\<close>.
  \<^item> A string is the list of its UTF-16 code units, for the code units below 256 (the
    characters of Latin-1); on these strings \<^verbatim>\<open>toLowerCase\<close> maps each code unit by
    itself.
  \<^item> \<^verbatim>\<open>localeCompare\<close> is modelled as the comparison of the code units from the left.
    That is what the collation computes on two timestamps of the format the store
    writes (digits at the same positions); the properties that speak of the order of
    the result assume that format of the stored timestamps.
  \<^item> A number in a template literal is modelled by its decimal digits, which is what it
    prints for an integer between \<open>-2^53\<close> and \<open>2^53\<close>.
  \<^item> The clock read by \<^verbatim>\<open>new Date()\<close> is an argument of \<open>addNote\<close>: the UTC calendar
    fields of the instant of the call.
\<close>

subsection \<open>Data model\<close>

datatype EntityType = Photo | Album | Group

record NoteRow =
  row_id :: int
  entity_type :: EntityType
  entity_id :: string
  note_text :: string
  created_at :: string

record NotesData =
  next_id :: int
  "notes" :: "NoteRow list"

record world =
  data :: "NotesData option"
  json_file :: "NotesData option"

datatype error = TypeError string

record Date =
  year :: nat
  month :: nat
  day :: nat
  hours :: nat
  minutes :: nat
  seconds :: nat
  milliseconds :: nat

subsection \<open>Library functions of JavaScript used by the store\<close>

definition digit :: "nat \<Rightarrow> char" where
  "digit n = ''0123456789'' ! (n mod 10)"

definition pad2 :: "nat \<Rightarrow> string" where
  "pad2 n = [digit (n div 10), digit n]"

definition pad3 :: "nat \<Rightarrow> string" where
  "pad3 n = [digit (n div 100), digit (n div 10), digit n]"

definition pad4 :: "nat \<Rightarrow> string" where
  "pad4 n = [digit (n div 1000), digit (n div 100), digit (n div 10), digit n]"

definition pad6 :: "nat \<Rightarrow> string" where
  "pad6 n = [digit (n div 100000), digit (n div 10000), digit (n div 1000),
             digit (n div 100), digit (n div 10), digit n]"

text \<open>\<^verbatim>\<open>Date.prototype.toISOString\<close>: \<^verbatim>\<open>YYYY-MM-DDTHH:mm:ss.sssZ\<close>, and the expanded year
  \<^verbatim>\<open>+YYYYYY\<close> after the year 9999.\<close>

definition toISOString :: "Date \<Rightarrow> string" where
  "toISOString d =
     (if year d \<le> 9999 then pad4 (year d) else CHR ''+'' # pad6 (year d))
     @ ''-'' @ pad2 (month d) @ ''-'' @ pad2 (day d)
     @ ''T'' @ pad2 (hours d) @ '':'' @ pad2 (minutes d) @ '':'' @ pad2 (seconds d)
     @ ''.'' @ pad3 (milliseconds d) @ ''Z''"

text \<open>\<^verbatim>\<open>String.prototype.replace\<close> with a string pattern: the first occurrence only.\<close>

fun replace :: "string \<Rightarrow> string \<Rightarrow> string \<Rightarrow> string" where
  "replace pat rep [] = (if pat = [] then rep else [])"
| "replace pat rep (c # cs) =
     (if prefix pat (c # cs) then rep @ drop (length pat) (c # cs)
      else c # replace pat rep cs)"

text \<open>\<^verbatim>\<open>slice(a, b)\<close> on indices that are not negative.\<close>

definition slice :: "nat \<Rightarrow> nat \<Rightarrow> 'a list \<Rightarrow> 'a list" where
  "slice a b xs = take (b - a) (drop a xs)"

text \<open>\<^verbatim>\<open>String.prototype.toLowerCase\<close> on one code unit below 256: the capital letters are
  A to Z (65 to 90) and the accented capitals 192 to 222 without the multiplication sign
  215; the small letter is 32 places further.\<close>

definition toLowerChar :: "char \<Rightarrow> char" where
  "toLowerChar c =
     (if ((65::nat) \<le> of_char c \<and> of_char c \<le> (90::nat))
         \<or> ((192::nat) \<le> of_char c \<and> of_char c \<le> (222::nat) \<and> of_char c \<noteq> (215::nat))
      then char_of (of_char c + (32::nat)) else c)"

definition toLowerCase :: "string \<Rightarrow> string" where
  "toLowerCase s = map toLowerChar s"

text \<open>\<^verbatim>\<open>String.prototype.includes\<close>: the argument occurs as a contiguous piece.\<close>

fun str_includes :: "string \<Rightarrow> string \<Rightarrow> bool" where
  "str_includes [] q = (q = [])"
| "str_includes (c # cs) q = (prefix q (c # cs) \<or> str_includes cs q)"

text \<open>\<^verbatim>\<open>String.prototype.localeCompare\<close>, as the comparison of the code units from the
  left: the result of the collation for two timestamps \<^verbatim>\<open>dddd-dd-dd dd:dd:dd\<close>.\<close>

fun localeCompare :: "string \<Rightarrow> string \<Rightarrow> int" where
  "localeCompare [] [] = 0"
| "localeCompare [] (y # ys) = - 1"
| "localeCompare (x # xs) [] = 1"
| "localeCompare (x # xs) (y # ys) =
     (if (of_char x :: nat) < of_char y then - 1
      else if (of_char y :: nat) < of_char x then 1
      else localeCompare xs ys)"

text \<open>\<^verbatim>\<open>Array.prototype.sort\<close> with a comparison function. The language requires the
  sort to be stable; it is modelled as the stable insertion sort: an element goes in
  front of the first one it does not compare greater than.\<close>

fun insort_cmp :: "('a \<Rightarrow> 'a \<Rightarrow> int) \<Rightarrow> 'a \<Rightarrow> 'a list \<Rightarrow> 'a list" where
  "insort_cmp cmp x [] = [x]"
| "insort_cmp cmp x (y # ys) =
     (if cmp x y \<le> 0 then x # y # ys else y # insort_cmp cmp x ys)"

definition sort_cmp :: "('a \<Rightarrow> 'a \<Rightarrow> int) \<Rightarrow> 'a list \<Rightarrow> 'a list" where
  "sort_cmp cmp xs = foldr (insort_cmp cmp) xs []"

text \<open>\<^verbatim>\<open>findIndex\<close>: the first index whose element satisfies the test, \<open>None\<close> for -1.\<close>

fun findIndex :: "('a \<Rightarrow> bool) \<Rightarrow> 'a list \<Rightarrow> nat option" where
  "findIndex P [] = None"
| "findIndex P (x # xs) =
     (if P x then Some 0 else map_option Suc (findIndex P xs))"

text \<open>\<^verbatim>\<open>splice(idx, 1)\<close>: the list without the element at \<open>idx\<close>.\<close>

definition splice1 :: "nat \<Rightarrow> 'a list \<Rightarrow> 'a list" where
  "splice1 idx xs = take idx xs @ drop (Suc idx) xs"

text \<open>A number in a template literal, for an integer between \<open>-2^53\<close> and \<open>2^53\<close>: its
  decimal digits.\<close>

fun show_nat :: "nat \<Rightarrow> string" where
  "show_nat n = (if n < 10 then [digit n] else show_nat (n div 10) @ [digit n])"

definition show_int :: "int \<Rightarrow> string" where
  "show_int i = (if i < 0 then CHR ''-'' # show_nat (nat (- i)) else show_nat (nat i))"

subsection \<open>The store: \<^verbatim>\<open>notes-db.ts\<close>\<close>

text \<open>\<^verbatim>\<open>n++\<close> on a number that holds an integer: the next value of \<open>n\<close>. The sum
  \<open>n + 1\<close> is exact from \<open>-2^53\<close> up to \<open>2^53 - 1\<close>. Beyond, the numbers are the even
  integers (up to \<open>2^54\<close>) or further apart, and the sum is rounded to the nearest of
  them, to the one with the even significand when it is half way: at \<open>2^53\<close> the result
  is \<open>2^53\<close> again.\<close>

definition incr :: "int \<Rightarrow> int" where
  "incr n =
     (if - 9007199254740992 \<le> n \<and> n < 9007199254740992 then n + 1
      else if 9007199254740992 \<le> n \<and> n < 18014398509481984 \<and> n mod 4 = 2 then n + 2
      else if - 18014398509481984 < n \<and> n < - 9007199254740992 \<and> n mod 4 = 2 then n + 2
      else n)"

definition save :: "world \<Rightarrow> world" where
  "save w = w\<lparr>json_file := data w\<rparr>"

definition initNotesDb :: "world \<Rightarrow> world" where
  "initNotesDb w =
     (case json_file w of
        Some d \<Rightarrow> w\<lparr>data := Some d\<rparr>
      | None \<Rightarrow> save (w\<lparr>data := Some \<lparr>next_id = 1, notes = []\<rparr>\<rparr>))"

definition stamp :: "Date \<Rightarrow> string" where
  "stamp now = slice 0 19 (replace ''T'' '' '' (toISOString now))"

definition addNote ::
  "Date \<Rightarrow> EntityType \<Rightarrow> string \<Rightarrow> string \<Rightarrow> world \<Rightarrow> error + (NoteRow \<times> world)" where
  "addNote now entityType entityId note w =
     (case data w of
        None \<Rightarrow> Inl (TypeError ''Cannot read properties of undefined (reading 'next_id')'')
      | Some d \<Rightarrow>
          let row = \<lparr>row_id = next_id d, entity_type = entityType, entity_id = entityId,
                     note_text = note, created_at = stamp now\<rparr>;
              d' = d\<lparr>next_id := incr (next_id d), notes := notes d @ [row]\<rparr>
          in Inr (row, save (w\<lparr>data := Some d'\<rparr>)))"

definition by_created_at_desc :: "NoteRow \<Rightarrow> NoteRow \<Rightarrow> int" where
  "by_created_at_desc a b = localeCompare (created_at b) (created_at a)"

definition getNotes ::
  "EntityType \<Rightarrow> string \<Rightarrow> world \<Rightarrow> error + (NoteRow list \<times> world)" where
  "getNotes entityType entityId w =
     (case data w of
        None \<Rightarrow> Inl (TypeError ''Cannot read properties of undefined (reading 'notes')'')
      | Some d \<Rightarrow>
          Inr (sort_cmp by_created_at_desc
                 (filter (\<lambda>n. entity_type n = entityType \<and> entity_id n = entityId) (notes d)),
               w))"

definition deleteNote :: "int \<Rightarrow> world \<Rightarrow> error + (bool \<times> world)" where
  "deleteNote noteId w =
     (case data w of
        None \<Rightarrow> Inl (TypeError ''Cannot read properties of undefined (reading 'notes')'')
      | Some d \<Rightarrow>
          (case findIndex (\<lambda>n. row_id n = noteId) (notes d) of
             None \<Rightarrow> Inr (False, w)
           | Some idx \<Rightarrow>
               Inr (True, save (w\<lparr>data := Some (d\<lparr>notes := splice1 idx (notes d)\<rparr>)\<rparr>))))"

definition searchNotes :: "string \<Rightarrow> world \<Rightarrow> error + (NoteRow list \<times> world)" where
  "searchNotes query w =
     (case data w of
        None \<Rightarrow> Inl (TypeError ''Cannot read properties of undefined (reading 'notes')'')
      | Some d \<Rightarrow>
          let lower = toLowerCase query
          in Inr (slice 0 50
                    (sort_cmp by_created_at_desc
                       (filter (\<lambda>n. str_includes (toLowerCase (note_text n)) lower) (notes d))),
                  w))"

subsection \<open>The note tools: \<^verbatim>\<open>tools/notes.ts\<close>\<close>

text \<open>The tool framework checks the arguments of a call against the tool's schema and
  calls the handler only when they pass; a call that does not pass is answered with an
  invalid-parameters error, here \<open>ValidationError\<close>. The arguments are modelled at
  their JSON types: strings for \<^verbatim>\<open>flickr_add_note\<close>, an integer for
  \<^verbatim>\<open>flickr_delete_note\<close>. A result is the list of the texts of its content items and
  the flag \<^verbatim>\<open>isError\<close>, which is \<open>False\<close> where the handler does not set it.\<close>

datatype tool_error = ValidationError

record ToolResult =
  content :: "string list"
  isError :: bool

text \<open>\<^verbatim>\<open>z.enum(["photo", "album", "group"])\<close>\<close>

definition entity_type_enum :: "string \<Rightarrow> EntityType option" where
  "entity_type_enum s =
     (if s = ''photo'' then Some Photo
      else if s = ''album'' then Some Album
      else if s = ''group'' then Some Group
      else None)"

definition flickr_add_note ::
  "Date \<Rightarrow> string \<Rightarrow> string \<Rightarrow> string \<Rightarrow> world \<Rightarrow> (tool_error + ToolResult) \<times> world" where
  "flickr_add_note now entity_type_arg entity_id_arg note w =
     (case entity_type_enum entity_type_arg of
        None \<Rightarrow> (Inl ValidationError, w)
      | Some t \<Rightarrow>
          if length note < 1 then (Inl ValidationError, w)
          else
            (case addNote now t entity_id_arg note w of
               Inr (row, w') \<Rightarrow>
                 (Inr \<lparr>content =
                         [''Note #'' @ show_int (row_id row) @ '' added to '' @ entity_type_arg
                          @ '' `'' @ entity_id_arg @ ''`:'' @ [CHR 0x0A] @ ''> '' @ note],
                       isError = False\<rparr>, w')
             | Inl (TypeError message) \<Rightarrow>
                 (Inr \<lparr>content = [''Failed to add note: '' @ message], isError = True\<rparr>, w)))"

definition flickr_delete_note :: "int \<Rightarrow> world \<Rightarrow> ToolResult \<times> world" where
  "flickr_delete_note note_id w =
     (case deleteNote note_id w of
        Inr (deleted, w') \<Rightarrow>
          if deleted
          then (\<lparr>content = [''Note #'' @ show_int note_id @ '' deleted.''], isError = False\<rparr>, w')
          else (\<lparr>content = [''Note #'' @ show_int note_id @ '' not found.''], isError = True\<rparr>, w')
      | Inl (TypeError message) \<Rightarrow>
          (\<lparr>content = [''Failed to delete note: '' @ message], isError = True\<rparr>, w))"

subsection \<open>Sequences of operations\<close>

datatype op =
    Add Date EntityType string string
  | Delete int
  | Get EntityType string
  | Search string
  | Init

text \<open>The state after one operation; an operation that throws leaves it as it was.\<close>

fun step :: "op \<Rightarrow> world \<Rightarrow> world" where
  "step (Add now t i n) w = (case addNote now t i n w of Inr (r, w') \<Rightarrow> w' | Inl e \<Rightarrow> w)"
| "step (Delete k) w = (case deleteNote k w of Inr (b, w') \<Rightarrow> w' | Inl e \<Rightarrow> w)"
| "step (Get t i) w = (case getNotes t i w of Inr (res, w') \<Rightarrow> w' | Inl e \<Rightarrow> w)"
| "step (Search q) w = (case searchNotes q w of Inr (res, w') \<Rightarrow> w' | Inl e \<Rightarrow> w)"
| "step Init w = initNotesDb w"

fun run :: "op list \<Rightarrow> world \<Rightarrow> world" where
  "run [] w = w"
| "run (x # xs) w = run xs (step x w)"

text \<open>The store of a process that starts with no file.\<close>

definition first_run :: world where
  "first_run = initNotesDb \<lparr>data = None, json_file = None\<rparr>"

text \<open>The notes that the calls of \<open>addNote\<close> in a sequence return, in the order of the
  calls.\<close>

fun returned :: "op \<Rightarrow> world \<Rightarrow> NoteRow list" where
  "returned (Add now t i n) w = (case addNote now t i n w of Inr (r, w') \<Rightarrow> [r] | Inl e \<Rightarrow> [])"
| "returned x w = []"

fun added :: "op list \<Rightarrow> world \<Rightarrow> NoteRow list" where
  "added [] w = []"
| "added (x # xs) w = returned x w @ added xs (step x w)"

text \<open>The notes of a list that no operation of a sequence deletes.\<close>

definition undeleted :: "op list \<Rightarrow> NoteRow list \<Rightarrow> NoteRow list" where
  "undeleted xs rs = filter (\<lambda>r. Delete (row_id r) \<notin> set xs) rs"

text \<open>The notes added in a sequence and not deleted by a later operation of it.\<close>

fun live :: "op list \<Rightarrow> world \<Rightarrow> NoteRow list" where
  "live [] w = []"
| "live (x # xs) w = undeleted xs (returned x w) @ live xs (step x w)"

text \<open>The state the store keeps: it is initialised, the file holds what is in memory,
  every stored identifier is below the counter, and no identifier is stored twice.\<close>

definition store_ok :: "world \<Rightarrow> bool" where
  "store_ok w =
     (case data w of
        None \<Rightarrow> False
      | Some d \<Rightarrow>
          json_file w = Some d
          \<and> list_all (\<lambda>r. row_id r < next_id d) (notes d)
          \<and> distinct (map row_id (notes d)))"




text \<open>The format of the timestamps that \<open>addNote\<close> writes in the years up to 9999:
  \<^verbatim>\<open>dddd-dd-dd dd:dd:dd\<close> with a digit for each \<^verbatim>\<open>d\<close>.\<close>

definition stamp_slot :: "char \<Rightarrow> char \<Rightarrow> bool" where
  "stamp_slot p c = (if p = CHR ''d'' then c \<in> set ''0123456789'' else c = p)"

definition is_stamp :: "string \<Rightarrow> bool" where
  "is_stamp s = list_all2 stamp_slot ''dddd-dd-dd dd:dd:dd'' s"

text \<open>The clock of every \<open>addNote\<close> of a sequence is in the years up to 9999.\<close>

fun clock_ok :: "op \<Rightarrow> bool" where
  "clock_ok (Add now t i n) = (year now \<le> 9999)"
| "clock_ok x = True"

text \<open>The number of calls of \<open>addNote\<close> in a sequence, and the counter having room for
  them: it is at least \<open>-2^53\<close> and stays at most \<open>2^53\<close>, so that every \<^verbatim>\<open>++\<close> of the
  sequence is exact.\<close>

fun adds :: "op list \<Rightarrow> nat" where
  "adds [] = 0"
| "adds (Add now t i n # xs) = Suc (adds xs)"
| "adds (x # xs) = adds xs"

definition counter_room :: "world \<Rightarrow> op list \<Rightarrow> bool" where
  "counter_room w xs =
     (case data w of
        None \<Rightarrow> False
      | Some d \<Rightarrow> - 9007199254740992 \<le> next_id d
                 \<and> next_id d + int (adds xs) \<le> 9007199254740992)"


text \<open>The instant and the states used in the examples.\<close>

definition t0 :: Date where
  "t0 = \<lparr>year = 2024, month = 5, day = 17, hours = 9, minutes = 30, seconds = 15,
         milliseconds = 120\<rparr>"

definition t1 :: Date where
  "t1 = \<lparr>year = 2024, month = 5, day = 17, hours = 9, minutes = 30, seconds = 15,
         milliseconds = 870\<rparr>"

definition t2 :: Date where
  "t2 = \<lparr>year = 2024, month = 5, day = 17, hours = 9, minutes = 31, seconds = 2,
         milliseconds = 5\<rparr>"

definition scenario :: "op list" where
  "scenario =
     [Add t0 Photo ''123'' ''check focus'',
      Add t2 Photo ''123'' ''submit to group X'',
      Delete 1]"

text \<open>A new process on the same file: \<^verbatim>\<open>data\<close> is unset again, the file is as it was
  left, and the server calls \<^verbatim>\<open>initNotesDb\<close>.\<close>

definition restart :: "world \<Rightarrow> world" where
  "restart w = initNotesDb (w\<lparr>data := None\<rparr>)"

definition one_note :: world where
  "one_note = run [Add t0 Photo ''123'' ''check focus''] first_run"

definition row1 :: NoteRow where
  "row1 = \<lparr>row_id = 1, entity_type = Photo, entity_id = ''123'', note_text = ''check focus'',
            created_at = ''2024-05-17 09:30:15''\<rparr>"

definition reuse_ops :: "op list" where
  "reuse_ops =
     [Add t0 Photo ''123'' ''check focus'',
      Delete 1,
      Add t1 Album ''77'' ''cover'']"

definition other_ops :: "op list" where
  "other_ops =
     [Add t1 Photo ''123'' ''check focus'', Delete 2, Delete 7, Get Photo ''123'',
      Search ''focus'', Init, Add t2 Group ''g1'' ''submit'']"

text \<open>A store initialised from a file whose counter is \<open>2^53 - 1\<close>, the same store after
  one more note, when the counter is \<open>2^53\<close>, and a store with an accented note.\<close>

definition at_limit :: world where
  "at_limit =
     initNotesDb \<lparr>data = None, json_file = Some \<lparr>next_id = 9007199254740991, notes = []\<rparr>\<rparr>"

definition saturated :: world where
  "saturated = run [Add t0 Photo ''123'' ''check focus''] at_limit"


section \<open>Sorting with a comparison function\<close>

lemma set_insort_cmp: "set (insort_cmp cmp x xs) = insert x (set xs)"
  by (induction xs) auto

lemma set_sort_cmp: "set (sort_cmp cmp xs) = set xs"
  by (induction xs) (simp_all add: sort_cmp_def set_insort_cmp)



lemma distinct_insort_cmp: "distinct (insort_cmp cmp x xs) = (x \<notin> set xs \<and> distinct xs)"
  by (induction xs) (auto simp: set_insort_cmp)

lemma distinct_sort_cmp: "distinct (sort_cmp cmp xs) = distinct xs"
  by (induction xs) (simp_all add: sort_cmp_def distinct_insort_cmp set_sort_cmp [unfolded sort_cmp_def])

lemma mset_insort_cmp: "mset (insort_cmp cmp x xs) = add_mset x (mset xs)"
  by (induction xs) auto

lemma mset_sort_cmp: "mset (sort_cmp cmp xs) = mset xs"
  by (induction xs) (simp_all add: sort_cmp_def mset_insort_cmp)

lemma sorted_insort_cmp:
  fixes k :: "'a \<Rightarrow> 'b::linorder"
  assumes cmp: "\<And>a b. (cmp a b \<le> 0) = (k b \<le> k a)"
  shows "sorted_wrt (\<lambda>a b. k b \<le> k a) xs \<Longrightarrow> sorted_wrt (\<lambda>a b. k b \<le> k a) (insort_cmp cmp x xs)"
  by (induction xs) (auto simp: set_insort_cmp cmp)

lemma sorted_sort_cmp:
  fixes k :: "'a \<Rightarrow> 'b::linorder"
  assumes cmp: "\<And>a b. (cmp a b \<le> 0) = (k b \<le> k a)"
  shows "sorted_wrt (\<lambda>a b. k b \<le> k a) (sort_cmp cmp xs)"
  by (induction xs) (simp_all add: sort_cmp_def sorted_insort_cmp [OF cmp])



lemma filter_key_unique:
  "distinct (map f xs) \<Longrightarrow> x \<in> set xs \<Longrightarrow> filter (\<lambda>y. f y = f x) xs = [x]"
proof (induction xs)
  case Nil
  then show ?case by simp
next
  case (Cons a xs)
  show ?case
  proof (cases "x = a")
    case True
    from Cons.prems(1) have "\<forall>y\<in>set xs. f y \<noteq> f a" by (auto simp: image_iff)
    then have "filter (\<lambda>y. f y = f a) xs = []" by (simp add: filter_empty_conv)
    with True show ?thesis by simp
  next
    case False
    with Cons.prems have x: "x \<in> set xs" and "f a \<noteq> f x" by (auto simp: image_iff)
    with Cons.IH Cons.prems(1) show ?thesis by simp
  qed
qed


lemma localeCompare_le: "(localeCompare a b \<le> 0) = (a \<le> b)"
  by (induction a b rule: localeCompare.induct) (auto simp: less_char_def less_eq_char_def)

lemma localeCompare_eq: "(localeCompare a b = 0) = (a = b)"
  by (induction a b rule: localeCompare.induct) (auto)

lemma by_created_at_desc_le: "(by_created_at_desc a b \<le> 0) = (created_at b \<le> created_at a)"
  by (simp add: by_created_at_desc_def localeCompare_le)

lemma created_at_sorted:
  "sorted (rev (map created_at (sort_cmp by_created_at_desc xs)))"
proof -
  have "sorted_wrt (\<lambda>a b. created_at b \<le> created_at a) (sort_cmp by_created_at_desc xs)"
    by (rule sorted_sort_cmp) (rule by_created_at_desc_le)
  then have "sorted_wrt (\<lambda>a b. b \<le> a) (map created_at (sort_cmp by_created_at_desc xs))"
    by (simp add: sorted_wrt_map)
  then show ?thesis by (simp add: sorted_wrt_rev)
qed





section \<open>Substrings and letters\<close>








section \<open>Timestamps\<close>

lemma digit_cases: "digit n \<in> set ''0123456789''"
  unfolding digit_def by (rule nth_mem) simp

lemma digit_not_T [simp]: "digit n \<noteq> CHR ''T''" "CHR ''T'' \<noteq> digit n"
  using digit_cases [of n] by auto

lemma stamp_slot_digit: "stamp_slot (CHR ''d'') (digit n)"
  using digit_cases [of n] by (simp only: stamp_slot_def refl if_True)

lemma stamp_format:
  assumes "year now \<le> 9999"
  shows "stamp now =
     pad4 (year now) @ ''-'' @ pad2 (month now) @ ''-'' @ pad2 (day now) @ '' ''
     @ pad2 (hours now) @ '':'' @ pad2 (minutes now) @ '':'' @ pad2 (seconds now)"
  using assms
  by (simp add: stamp_def toISOString_def pad2_def pad3_def pad4_def slice_def)


lemma is_stamp_stamp:
  assumes "year now \<le> 9999"
  shows "is_stamp (stamp now)"
  by (simp add: stamp_format [OF assms] is_stamp_def pad2_def pad4_def stamp_slot_digit)
     (simp add: stamp_slot_def)



section \<open>The operations on an initialised store\<close>

lemma incr_exact:
  "- 9007199254740992 \<le> n \<Longrightarrow> n < 9007199254740992 \<Longrightarrow> incr n = n + 1"
  by (simp add: incr_def)

lemma incr_ge: "n \<le> incr n"
  by (simp add: incr_def)

lemma findIndex_None_iff: "(findIndex P xs = None) = (\<forall>x\<in>set xs. \<not> P x)"
  by (induction xs) auto

lemma findIndex_Some_ex: "findIndex P xs = Some i \<Longrightarrow> \<exists>x\<in>set xs. P x"
  using findIndex_None_iff [of P xs] by auto

lemma splice1_Cons_Suc: "splice1 (Suc i) (x # xs) = x # splice1 i xs"
  by (simp add: splice1_def)

lemma splice1_Cons_0: "splice1 0 (x # xs) = xs"
  by (simp add: splice1_def)

lemma set_splice1_subset: "set (splice1 i xs) \<subseteq> set xs"
  using set_take_subset [of i xs] set_drop_subset [of "Suc i" xs]
  by (auto simp: splice1_def)

lemma findIndex_splice1_keeps:
  "findIndex P xs = Some i \<Longrightarrow> x \<in> set xs \<Longrightarrow> \<not> P x \<Longrightarrow> x \<in> set (splice1 i xs)"
proof (induction xs arbitrary: i)
  case Nil
  then show ?case by simp
next
  case (Cons a xs)
  show ?case
  proof (cases "P a")
    case True
    with Cons.prems have "i = 0" and "x \<in> set xs" by auto
    then show ?thesis by (simp add: splice1_Cons_0)
  next
    case False
    with Cons.prems obtain j where j: "findIndex P xs = Some j" "i = Suc j"
      by auto
    show ?thesis
    proof (cases "x = a")
      case True
      with j show ?thesis by (simp add: splice1_Cons_Suc)
    next
      case False
      with Cons.prems have "x \<in> set xs" by simp
      from Cons.IH [OF j(1) this Cons.prems(3)] j(2) show ?thesis
        by (simp add: splice1_Cons_Suc)
    qed
  qed
qed

lemma splice1_findIndex_distinct:
  "findIndex (\<lambda>n. f n = k) xs = Some i \<Longrightarrow> distinct (map f xs) \<Longrightarrow>
     splice1 i xs = filter (\<lambda>n. f n \<noteq> k) xs"
proof (induction xs arbitrary: i)
  case Nil
  then show ?case by simp
next
  case (Cons x xs)
  show ?case
  proof (cases "f x = k")
    case True
    with Cons.prems have i: "i = 0" by simp
    from True Cons.prems have "\<forall>y\<in>set xs. f y \<noteq> k" by (auto simp: image_iff)
    then have "filter (\<lambda>n. f n \<noteq> k) xs = xs" by (simp add: filter_id_conv)
    with True i show ?thesis by (simp add: splice1_Cons_0)
  next
    case False
    with Cons.prems obtain j where j: "findIndex (\<lambda>n. f n = k) xs = Some j" "i = Suc j"
      by (auto)
    with Cons.IH [of j] Cons.prems False show ?thesis
      by (simp add: splice1_Cons_Suc)
  qed
qed

lemma store_ok_data: "store_ok w \<Longrightarrow> \<exists>d. data w = Some d"
  by (auto simp: store_ok_def split: option.splits)

lemma store_okD:
  "store_ok w \<Longrightarrow> data w = Some d \<Longrightarrow>
     json_file w = Some d \<and> (\<forall>r\<in>set (notes d). row_id r < next_id d) \<and> distinct (map row_id (notes d))"
  by (auto simp: store_ok_def list_all_iff)

lemma store_ok_first_run: "store_ok first_run"
  by (simp add: first_run_def initNotesDb_def save_def store_ok_def)

lemma data_first_run: "data first_run = Some \<lparr>next_id = 1, notes = []\<rparr>"
  by (simp add: first_run_def initNotesDb_def save_def)

lemma addNote_Some:
  "data w = Some d \<Longrightarrow>
     addNote now t i n w =
       Inr (\<lparr>row_id = next_id d, entity_type = t, entity_id = i, note_text = n,
              created_at = stamp now\<rparr>,
            w\<lparr>data := Some \<lparr>next_id = incr (next_id d),
                             notes = notes d @ [\<lparr>row_id = next_id d, entity_type = t,
                               entity_id = i, note_text = n, created_at = stamp now\<rparr>]\<rparr>,
              json_file := Some \<lparr>next_id = incr (next_id d),
                             notes = notes d @ [\<lparr>row_id = next_id d, entity_type = t,
                               entity_id = i, note_text = n, created_at = stamp now\<rparr>]\<rparr>\<rparr>)"
  by (simp add: addNote_def save_def Let_def)

lemma deleteNote_missing:
  "data w = Some d \<Longrightarrow> \<forall>r\<in>set (notes d). row_id r \<noteq> k \<Longrightarrow> deleteNote k w = Inr (False, w)"
  using findIndex_None_iff [of "\<lambda>n. row_id n = k" "notes d"]
  by (simp add: deleteNote_def)

lemma deleteNote_found:
  "data w = Some d \<Longrightarrow> findIndex (\<lambda>n. row_id n = k) (notes d) = Some j \<Longrightarrow>
     deleteNote k w =
       Inr (True, w\<lparr>data := Some (d\<lparr>notes := splice1 j (notes d)\<rparr>),
                     json_file := Some (d\<lparr>notes := splice1 j (notes d)\<rparr>)\<rparr>)"
  by (simp add: deleteNote_def save_def)

lemma deleteNote_present:
  assumes "data w = Some d" and "distinct (map row_id (notes d))"
    and "\<exists>r\<in>set (notes d). row_id r = k"
  shows "deleteNote k w =
     Inr (True, w\<lparr>data := Some (d\<lparr>notes := filter (\<lambda>r. row_id r \<noteq> k) (notes d)\<rparr>),
                   json_file := Some (d\<lparr>notes := filter (\<lambda>r. row_id r \<noteq> k) (notes d)\<rparr>)\<rparr>)"
proof -
  from assms(3) obtain j where j: "findIndex (\<lambda>n. row_id n = k) (notes d) = Some j"
    using findIndex_None_iff [of "\<lambda>n. row_id n = k" "notes d"] by (cases "findIndex (\<lambda>n. row_id n = k) (notes d)") auto
  from splice1_findIndex_distinct [OF j assms(2)]
  show ?thesis using assms(1) j by (simp add: deleteNote_def save_def)
qed

lemma getNotes_Some:
  "data w = Some d \<Longrightarrow>
     getNotes t i w =
       Inr (sort_cmp by_created_at_desc
              (filter (\<lambda>n. entity_type n = t \<and> entity_id n = i) (notes d)), w)"
  by (simp add: getNotes_def)

lemma searchNotes_Some:
  "data w = Some d \<Longrightarrow>
     searchNotes q w =
       Inr (take 50 (sort_cmp by_created_at_desc
              (filter (\<lambda>n. str_includes (toLowerCase (note_text n)) (toLowerCase q)) (notes d))), w)"
  by (simp add: searchNotes_def slice_def Let_def)

lemma initNotesDb_same: "data w = Some d \<Longrightarrow> json_file w = Some d \<Longrightarrow> initNotesDb w = w"
  by (simp add: initNotesDb_def)

lemma initNotesDb_ok: "store_ok w \<Longrightarrow> initNotesDb w = w"
  by (auto simp: store_ok_def initNotesDb_def split: option.splits)

text \<open>The store after one operation.\<close>

lemma data_step:
  assumes "store_ok w" and "data w = Some d"
  shows "data (step x w) =
     Some (case x of
        Add now t i n \<Rightarrow> \<lparr>next_id = incr (next_id d), notes = notes d @ returned x w\<rparr>
      | Delete k \<Rightarrow> d\<lparr>notes := filter (\<lambda>r. row_id r \<noteq> k) (notes d)\<rparr>
      | _ \<Rightarrow> d)"
proof (cases x)
  case (Add now t i n)
  then show ?thesis using assms(2) by (simp add: addNote_Some)
next
  case (Delete k)
  show ?thesis
  proof (cases "\<exists>r\<in>set (notes d). row_id r = k")
    case True
    with Delete assms show ?thesis
      by (simp add: deleteNote_present store_okD)
  next
    case False
    then have "filter (\<lambda>r. row_id r \<noteq> k) (notes d) = notes d"
      by (simp add: filter_id_conv)
    with False Delete assms show ?thesis
      by (simp add: deleteNote_missing)
  qed
next
  case (Get t i)
  then show ?thesis using assms(2) by (simp add: getNotes_Some)
next
  case (Search q)
  then show ?thesis using assms(2) by (simp add: searchNotes_Some)
next
  case Init
  then show ?thesis using assms by (simp add: initNotesDb_ok)
qed

lemma returned_Add:
  "data w = Some d \<Longrightarrow>
     returned (Add now t i n) w =
       [\<lparr>row_id = next_id d, entity_type = t, entity_id = i, note_text = n,
          created_at = stamp now\<rparr>]"
  by (simp add: addNote_Some)

lemma counter_roomD:
  "counter_room w xs \<Longrightarrow> data w = Some d \<Longrightarrow>
     - 9007199254740992 \<le> next_id d \<and> next_id d + int (adds xs) \<le> 9007199254740992"
  by (simp add: counter_room_def)

lemma counter_room_Add:
  "counter_room w (Add now t i n # xs) \<Longrightarrow> data w = Some d \<Longrightarrow> incr (next_id d) = next_id d + 1"
  by (rule incr_exact) (simp_all add: counter_room_def)

lemma store_ok_step:
  assumes "store_ok w" and "counter_room w (x # xs)"
  shows "store_ok (step x w)"
proof -
  from assms(1) obtain d where d: "data w = Some d" using store_ok_data by blast
  note ok = store_okD [OF assms(1) d]
  show ?thesis
  proof (cases x)
    case (Add now t i n)
    with assms(2) d have "incr (next_id d) = next_id d + 1" by (simp add: counter_room_Add)
    with Add show ?thesis using d ok
      by (auto simp: addNote_Some store_ok_def list_all_iff)
  next
    case (Delete k)
    show ?thesis
    proof (cases "\<exists>r\<in>set (notes d). row_id r = k")
      case True
      with Delete d ok show ?thesis
        by (auto simp: deleteNote_present store_ok_def list_all_iff distinct_map_filter)
    next
      case False
      with Delete d assms(1) show ?thesis by (simp add: deleteNote_missing)
    qed
  next
    case (Get t i)
    then show ?thesis using d assms(1) by (simp add: getNotes_Some)
  next
    case (Search q)
    then show ?thesis using d assms(1) by (simp add: searchNotes_Some)
  next
    case Init
    then show ?thesis using assms(1) by (simp add: initNotesDb_ok)
  qed
qed

lemma counter_room_step:
  assumes "store_ok w" and "counter_room w (x # xs)"
  shows "counter_room (step x w) xs"
proof -
  from assms(1) obtain d where d: "data w = Some d" using store_ok_data by blast
  note room = counter_roomD [OF assms(2) d]
  note st = data_step [OF assms(1) d, of x]
  show ?thesis
  proof (cases x)
    case (Add now t i n)
    with assms(2) d have "incr (next_id d) = next_id d + 1" by (simp add: counter_room_Add)
    with Add st room show ?thesis by (simp add: counter_room_def)
  qed (use st room in \<open>simp_all add: counter_room_def\<close>)
qed

lemma store_ok_run: "store_ok w \<Longrightarrow> counter_room w xs \<Longrightarrow> store_ok (run xs w)"
proof (induction xs arbitrary: w)
  case Nil
  then show ?case by simp
next
  case (Cons x xs)
  from store_ok_step [OF Cons.prems] counter_room_step [OF Cons.prems]
  show ?case by (simp add: Cons.IH)
qed

section \<open>Sequences of operations\<close>

lemma undeleted_append: "undeleted xs (a @ b) = undeleted xs a @ undeleted xs b"
  by (simp add: undeleted_def)

lemma set_undeleted_subset: "set (undeleted xs rs) \<subseteq> set rs"
  by (auto simp: undeleted_def)

lemma undeleted_step:
  assumes "store_ok w" and "data w = Some d" and "data (step x w) = Some d1"
  shows "undeleted xs (notes d1) = undeleted (x # xs) (notes d) @ undeleted xs (returned x w)"
proof -
  from data_step [OF assms(1,2), of x] assms(3)
  have d1: "d1 = (case x of
        Add now t i n \<Rightarrow> \<lparr>next_id = incr (next_id d), notes = notes d @ returned x w\<rparr>
      | Delete k \<Rightarrow> d\<lparr>notes := filter (\<lambda>r. row_id r \<noteq> k) (notes d)\<rparr>
      | _ \<Rightarrow> d)" by simp
  show ?thesis
  proof (cases x)
    case (Delete k)
    have "filter (\<lambda>r. Delete (row_id r) \<notin> set xs) (filter (\<lambda>r. row_id r \<noteq> k) (notes d))
        = filter (\<lambda>r. Delete (row_id r) \<notin> set (Delete k # xs)) (notes d)"
      by (auto intro: filter_cong)
    with Delete d1 show ?thesis by (simp add: undeleted_def)
  qed (simp_all add: d1 undeleted_def)
qed

text \<open>The stored list after a sequence of operations.\<close>

lemma notes_run:
  "store_ok w \<Longrightarrow> counter_room w xs \<Longrightarrow> data w = Some d \<Longrightarrow>
     \<exists>d'. data (run xs w) = Some d' \<and> notes d' = undeleted xs (notes d) @ live xs w"
proof (induction xs arbitrary: w d)
  case Nil
  then show ?case by (simp add: undeleted_def)
next
  case (Cons x xs)
  from store_ok_step [OF Cons.prems(1,2)]
  have ok1: "store_ok (step x w)" .
  from counter_room_step [OF Cons.prems(1,2)]
  have room1: "counter_room (step x w) xs" .
  from ok1 obtain d1 where d1: "data (step x w) = Some d1" using store_ok_data by blast
  from Cons.IH [OF ok1 room1 d1] obtain d' where
    d': "data (run xs (step x w)) = Some d'"
        "notes d' = undeleted xs (notes d1) @ live xs (step x w)" by blast
  from undeleted_step [OF Cons.prems(1,3) d1, of xs] d'
  show ?case by simp
qed

lemma returned_ids:
  assumes "data w = Some d" and "a \<in> set (returned x w)"
  shows "row_id a = next_id d"
  using assms by (cases x) (auto simp: addNote_Some)

lemma added_ids:
  "store_ok w \<Longrightarrow> counter_room w xs \<Longrightarrow> data w = Some d \<Longrightarrow>
     sorted_wrt (<) (map row_id (added xs w)) \<and> (\<forall>a\<in>set (added xs w). next_id d \<le> row_id a)"
proof (induction xs arbitrary: w d)
  case Nil
  then show ?case by simp
next
  case (Cons x xs)
  from store_ok_step [OF Cons.prems(1,2)]
  have ok1: "store_ok (step x w)" .
  from counter_room_step [OF Cons.prems(1,2)]
  have room1: "counter_room (step x w) xs" .
  from ok1 obtain d1 where d1: "data (step x w) = Some d1" using store_ok_data by blast
  note ih = Cons.IH [OF ok1 room1 d1]
  note ret = returned_ids [OF Cons.prems(3)]
  have le: "next_id d \<le> next_id d1"
    using data_step [OF Cons.prems(1,3), of x] d1 incr_ge [of "next_id d"] by (cases x) auto
  have lt: "returned x w \<noteq> [] \<Longrightarrow> next_id d < next_id d1"
  proof (cases x)
    case (Add now t i n)
    with Cons.prems(2,3) have e: "incr (next_id d) = next_id d + 1"
      by (simp add: counter_room_Add)
    from Add d1 Cons.prems(3) have "next_id d1 = incr (next_id d)"
      by (auto simp: addNote_Some)
    with e show ?thesis by simp
  qed simp_all
  have one: "sorted_wrt (<) (map row_id (returned x w))"
    by (cases x) (simp_all add: addNote_Some [OF Cons.prems(3)])
  have cross: "\<forall>a\<in>set (returned x w). \<forall>b\<in>set (added xs (step x w)). row_id a < row_id b"
  proof (intro ballI)
    fix a b assume a: "a \<in> set (returned x w)" and b: "b \<in> set (added xs (step x w))"
    from a have "returned x w \<noteq> []" by auto
    with lt have "next_id d < next_id d1" by simp
    moreover from ret [OF a] have "row_id a = next_id d" .
    moreover from ih b have "next_id d1 \<le> row_id b" by simp
    ultimately show "row_id a < row_id b" by simp
  qed
  have lower: "\<forall>a\<in>set (added xs (step x w)). next_id d \<le> row_id a"
    using ih le by fastforce
  have lower0: "\<forall>a\<in>set (returned x w). next_id d \<le> row_id a"
    using ret by simp
  show ?case
    using one ih cross lower lower0 by (auto simp: sorted_wrt_append)
qed

lemma live_subset_added: "set (live xs w) \<subseteq> set (added xs w)"
proof (induction xs arbitrary: w)
  case Nil
  show ?case by simp
next
  case (Cons x xs)
  have "set (live xs (step x w)) \<subseteq> set (added xs (step x w))" by (rule Cons.IH)
  then show ?case using set_undeleted_subset [of xs "returned x w"] by auto
qed

lemma returned_stamp:
  assumes "clock_ok x" and "a \<in> set (returned x w)"
  shows "is_stamp (created_at a)"
proof (cases x)
  case (Add now t i n)
  with assms(1) have y: "year now \<le> 9999" by simp
  show ?thesis
  proof (cases "data w")
    case None
    with Add assms(2) show ?thesis by (simp add: addNote_def)
  next
    case (Some d)
    with Add assms(2) is_stamp_stamp [OF y] show ?thesis by (simp add: addNote_Some)
  qed
qed (use assms(2) in simp_all)

lemma added_stamps:
  "list_all clock_ok xs \<Longrightarrow> \<forall>a\<in>set (added xs w). is_stamp (created_at a)"
proof (induction xs arbitrary: w)
  case Nil
  show ?case by simp
next
  case (Cons x xs)
  then have c: "clock_ok x" and cs: "list_all clock_ok xs" by simp_all
  from Cons.IH [OF cs, of "step x w"] returned_stamp [OF c, of _ w]
  show ?case by auto
qed

text \<open>The state of the store through one operation, without any assumption on the
  identifiers: the file holds what is in memory, and the counter does not decrease.\<close>

lemma step_cases:
  assumes "data w = Some d" and "json_file w = Some d"
  shows "\<exists>d1. data (step x w) = Some d1 \<and> json_file (step x w) = Some d1
       \<and> next_id d \<le> next_id d1
       \<and> (notes d1 = notes d
          \<or> (\<exists>now t i n. x = Add now t i n \<and> notes d1 = notes d @ returned x w)
          \<or> (\<exists>k j. x = Delete k \<and> findIndex (\<lambda>n. row_id n = k) (notes d) = Some j
                \<and> notes d1 = splice1 j (notes d)))"
proof (cases x)
  case (Add now t i n)
  then show ?thesis using assms(1) incr_ge [of "next_id d"] by (simp add: addNote_Some)
next
  case (Delete k)
  show ?thesis
  proof (cases "findIndex (\<lambda>n. row_id n = k) (notes d)")
    case None
    then have "\<forall>r\<in>set (notes d). row_id r \<noteq> k" by (simp add: findIndex_None_iff)
    with Delete assms show ?thesis by (simp add: deleteNote_missing)
  next
    case (Some j)
    with Delete assms(1) show ?thesis by (simp add: deleteNote_found)
  qed
next
  case (Get t i)
  then show ?thesis using assms by (simp add: getNotes_Some)
next
  case (Search q)
  then show ?thesis using assms by (simp add: searchNotes_Some)
next
  case Init
  then show ?thesis using assms by (simp add: initNotesDb_same)
qed

text \<open>An identifier below the counter that is not stored stays so.\<close>

lemma retired_step:
  assumes "data w = Some d" and "json_file w = Some d" and "k < next_id d"
    and "\<forall>r\<in>set (notes d). row_id r \<noteq> k"
  shows "\<exists>d1. data (step x w) = Some d1 \<and> json_file (step x w) = Some d1
       \<and> k < next_id d1 \<and> (\<forall>r\<in>set (notes d1). row_id r \<noteq> k)"
proof -
  from step_cases [OF assms(1,2), of x] obtain d1 where
    d1: "data (step x w) = Some d1" "json_file (step x w) = Some d1" "next_id d \<le> next_id d1"
    and sh: "notes d1 = notes d
          \<or> (\<exists>now t i n. x = Add now t i n \<and> notes d1 = notes d @ returned x w)
          \<or> (\<exists>k j. x = Delete k \<and> findIndex (\<lambda>n. row_id n = k) (notes d) = Some j
                \<and> notes d1 = splice1 j (notes d))" by blast
  have "\<forall>r\<in>set (notes d1). row_id r \<noteq> k"
  proof
    fix r assume r: "r \<in> set (notes d1)"
    from sh consider "notes d1 = notes d"
      | "notes d1 = notes d @ returned x w"
      | j where "notes d1 = splice1 j (notes d)" by blast
    then show "row_id r \<noteq> k"
    proof cases
      case 1
      with r assms(4) show ?thesis by simp
    next
      case 2
      with r have "r \<in> set (notes d) \<or> r \<in> set (returned x w)" by simp
      then show ?thesis
      proof
        assume "r \<in> set (notes d)"
        with assms(4) show ?thesis by simp
      next
        assume "r \<in> set (returned x w)"
        from returned_ids [OF assms(1) this] assms(3) show ?thesis by simp
      qed
    next
      case 3
      with r set_splice1_subset [of j "notes d"] have "r \<in> set (notes d)" by auto
      with assms(4) show ?thesis by simp
    qed
  qed
  with d1 assms(3) show ?thesis by auto
qed

lemma retired_run:
  "data w = Some d \<Longrightarrow> json_file w = Some d \<Longrightarrow> k < next_id d \<Longrightarrow>
     \<forall>r\<in>set (notes d). row_id r \<noteq> k \<Longrightarrow>
     \<exists>d'. data (run xs w) = Some d' \<and> (\<forall>r\<in>set (notes d'). row_id r \<noteq> k)"
proof (induction xs arbitrary: w d)
  case Nil
  then show ?case by simp
next
  case (Cons x xs)
  from retired_step [OF Cons.prems, of x] obtain d1 where
    d1: "data (step x w) = Some d1" "json_file (step x w) = Some d1" "k < next_id d1"
        "\<forall>r\<in>set (notes d1). row_id r \<noteq> k" by blast
  from Cons.IH [OF d1] show ?case by simp
qed

text \<open>A stored note whose identifier is below the counter and that is the only note with
  it stays so through every operation that does not delete the identifier.\<close>

lemma kept_step:
  assumes "data w = Some d" and "json_file w = Some d" and "r \<in> set (notes d)"
    and "row_id r < next_id d" and "\<forall>r'\<in>set (notes d). row_id r' = row_id r \<longrightarrow> r' = r"
    and "x \<noteq> Delete (row_id r)"
  shows "\<exists>d1. data (step x w) = Some d1 \<and> json_file (step x w) = Some d1
       \<and> r \<in> set (notes d1) \<and> row_id r < next_id d1
       \<and> (\<forall>r'\<in>set (notes d1). row_id r' = row_id r \<longrightarrow> r' = r)"
proof -
  from step_cases [OF assms(1,2), of x] obtain d1 where
    d1: "data (step x w) = Some d1" "json_file (step x w) = Some d1" "next_id d \<le> next_id d1"
    and sh: "notes d1 = notes d
          \<or> (\<exists>now t i n. x = Add now t i n \<and> notes d1 = notes d @ returned x w)
          \<or> (\<exists>k j. x = Delete k \<and> findIndex (\<lambda>n. row_id n = k) (notes d) = Some j
                \<and> notes d1 = splice1 j (notes d))" by blast
  from sh consider "notes d1 = notes d"
    | "notes d1 = notes d @ returned x w"
    | k j where "x = Delete k" "findIndex (\<lambda>n. row_id n = k) (notes d) = Some j"
        "notes d1 = splice1 j (notes d)" by blast
  then have "r \<in> set (notes d1) \<and> (\<forall>r'\<in>set (notes d1). row_id r' = row_id r \<longrightarrow> r' = r)"
  proof cases
    case 1
    with assms(3,5) show ?thesis by simp
  next
    case 2
    have "\<forall>r'\<in>set (returned x w). row_id r' \<noteq> row_id r"
      using returned_ids [OF assms(1)] assms(4) by fastforce
    with 2 assms(3,5) show ?thesis by auto
  next
    case 3
    from 3(1) assms(6) have "row_id r \<noteq> k" by simp
    with findIndex_splice1_keeps [OF 3(2) assms(3)] have "r \<in> set (splice1 j (notes d))"
      by simp
    moreover have "\<forall>r'\<in>set (splice1 j (notes d)). row_id r' = row_id r \<longrightarrow> r' = r"
      using set_splice1_subset [of j "notes d"] assms(5) by blast
    ultimately show ?thesis using 3(3) by simp
  qed
  with d1 assms(4) show ?thesis by auto
qed

lemma kept_run:
  "data w = Some d \<Longrightarrow> json_file w = Some d \<Longrightarrow> r \<in> set (notes d) \<Longrightarrow>
     row_id r < next_id d \<Longrightarrow> \<forall>r'\<in>set (notes d). row_id r' = row_id r \<longrightarrow> r' = r \<Longrightarrow>
     Delete (row_id r) \<notin> set xs \<Longrightarrow>
     \<exists>d'. data (run xs w) = Some d' \<and> r \<in> set (notes d')
        \<and> (\<forall>r'\<in>set (notes d'). row_id r' = row_id r \<longrightarrow> r' = r)"
proof (induction xs arbitrary: w d)
  case Nil
  then show ?case by simp
next
  case (Cons x xs)
  from Cons.prems(6) have x: "x \<noteq> Delete (row_id r)" and xs: "Delete (row_id r) \<notin> set xs"
    by auto
  from kept_step [OF Cons.prems(1-5) x] obtain d1 where
    d1: "data (step x w) = Some d1" "json_file (step x w) = Some d1" "r \<in> set (notes d1)"
        "row_id r < next_id d1" "\<forall>r'\<in>set (notes d1). row_id r' = row_id r \<longrightarrow> r' = r"
    by blast
  from Cons.IH [OF d1 xs] show ?case by simp
qed

section \<open>The example states\<close>

lemma stamp_t0: "stamp t0 = ''2024-05-17 09:30:15''"
  by (simp add: stamp_def t0_def toISOString_def pad2_def pad3_def pad4_def digit_def slice_def)

lemma stamp_t1: "stamp t1 = ''2024-05-17 09:30:15''"
  by (simp add: stamp_def t1_def toISOString_def pad2_def pad3_def pad4_def digit_def slice_def)

lemma stamp_t2: "stamp t2 = ''2024-05-17 09:31:02''"
  by (simp add: stamp_def t2_def toISOString_def pad2_def pad3_def pad4_def digit_def slice_def)

lemma incr_1: "incr 1 = 2"
  by (simp add: incr_def)

lemma incr_2: "incr 2 = 3"
  by (simp add: incr_def)

lemma incr_limit:
  "incr 9007199254740991 = 9007199254740992" "incr 9007199254740992 = 9007199254740992"
  by (simp_all add: incr_def)

lemma one_note_eq:
  "one_note = \<lparr>data = Some \<lparr>next_id = 2, notes = [row1]\<rparr>,
               json_file = Some \<lparr>next_id = 2, notes = [row1]\<rparr>\<rparr>"
  by (simp add: one_note_def row1_def first_run_def initNotesDb_def save_def addNote_def
      Let_def stamp_t0 incr_1)

lemma data_one_note: "data one_note = Some \<lparr>next_id = 2, notes = [row1]\<rparr>"
  by (simp add: one_note_eq)

lemma store_ok_one_note: "store_ok one_note"
  by (simp add: one_note_eq store_ok_def row1_def)

lemma at_limit_eq:
  "at_limit = \<lparr>data = Some \<lparr>next_id = 9007199254740991, notes = []\<rparr>,
               json_file = Some \<lparr>next_id = 9007199254740991, notes = []\<rparr>\<rparr>"
  by (simp add: at_limit_def initNotesDb_def)

lemma saturated_eq:
  "saturated =
     \<lparr>data = Some \<lparr>next_id = 9007199254740992, notes =
          [\<lparr>row_id = 9007199254740991, entity_type = Photo, entity_id = ''123'',
             note_text = ''check focus'', created_at = ''2024-05-17 09:30:15''\<rparr>]\<rparr>,
       json_file = Some \<lparr>next_id = 9007199254740992, notes =
          [\<lparr>row_id = 9007199254740991, entity_type = Photo, entity_id = ''123'',
             note_text = ''check focus'', created_at = ''2024-05-17 09:30:15''\<rparr>]\<rparr>\<rparr>"
  by (simp add: saturated_def at_limit_eq addNote_def save_def Let_def stamp_t0 incr_limit)



section \<open>The properties\<close>

text \<open>
  C1. After every sequence of operations on an initialised store, \<open>getNotes t i\<close> returns
  the notes of the pair \<open>(t, i)\<close> that were in the store or were added by the sequence and
  that no later operation of it deleted: exactly those, each once, with \<open>created_at\<close>
  descending. It returns (it does not throw), and for a pair that no note was ever added
  with, the result is empty. The store is one the operations keep (the file holds what
  is in memory, the identifiers are below the counter and different), its timestamps
  are of the format that \<open>addNote\<close> writes, the clock is in the years up to 9999, and the
  counter has room for the notes that the sequence adds.
\<close>

theorem getNotes_live_notes_newest_first:
  assumes "store_ok w" and "data w = Some d" and "counter_room w xs"
    and "list_all clock_ok xs" and "list_all (\<lambda>r. is_stamp (created_at r)) (notes d)"
  shows "\<exists>res. getNotes t i (run xs w) = Inr (res, run xs w)
     \<and> set res = {r \<in> set (undeleted xs (notes d) @ live xs w). entity_type r = t \<and> entity_id r = i}
     \<and> distinct res
     \<and> list_all (\<lambda>r. is_stamp (created_at r)) res
     \<and> sorted (rev (map created_at res))
     \<and> ((\<forall>r\<in>set (notes d @ added xs w). \<not> (entity_type r = t \<and> entity_id r = i)) \<longrightarrow> res = [])"
proof -
  from notes_run [OF assms(1,3,2)] obtain d' where
    d': "data (run xs w) = Some d'" "notes d' = undeleted xs (notes d) @ live xs w" by blast
  let ?m = "filter (\<lambda>n. entity_type n = t \<and> entity_id n = i) (notes d')"
  let ?res = "sort_cmp by_created_at_desc ?m"
  have g: "getNotes t i (run xs w) = Inr (?res, run xs w)"
    by (rule getNotes_Some [OF d'(1)])
  have s: "set ?res = {r \<in> set (undeleted xs (notes d) @ live xs w). entity_type r = t \<and> entity_id r = i}"
    using d'(2) by (auto simp: set_sort_cmp)
  from store_okD [OF store_ok_run [OF assms(1,3)] d'(1)]
  have "distinct (map row_id (notes d'))" by simp
  then have "distinct (notes d')" by (simp add: distinct_map)
  then have dis: "distinct ?res" by (simp add: distinct_sort_cmp)
  have srt: "sorted (rev (map created_at ?res))" by (rule created_at_sorted)
  have sub: "set (undeleted xs (notes d) @ live xs w) \<subseteq> set (notes d @ added xs w)"
    using set_undeleted_subset [of xs "notes d"] live_subset_added [of xs w] by auto
  have st: "list_all (\<lambda>r. is_stamp (created_at r)) ?res"
  proof -
    have "\<forall>r\<in>set (notes d @ added xs w). is_stamp (created_at r)"
      using assms(5) added_stamps [OF assms(4), of w] by (auto simp: list_all_iff)
    with sub s show ?thesis unfolding list_all_iff by blast
  qed
  have emp: "(\<forall>r\<in>set (notes d @ added xs w). \<not> (entity_type r = t \<and> entity_id r = i)) \<longrightarrow> ?res = []"
  proof
    assume "\<forall>r\<in>set (notes d @ added xs w). \<not> (entity_type r = t \<and> entity_id r = i)"
    with sub have "{r \<in> set (undeleted xs (notes d) @ live xs w). entity_type r = t \<and> entity_id r = i} = {}"
      by blast
    with s have "set ?res = {}" by simp
    then show "?res = []" by simp
  qed
  show ?thesis
    by (rule exI [of _ ?res]) (intro conjI g s dis st srt emp)
qed

theorem getNotes_live_notes_newest_first_witness:
  "store_ok first_run \<and> data first_run = Some \<lparr>next_id = 1, notes = []\<rparr>
   \<and> counter_room first_run scenario \<and> list_all clock_ok scenario
   \<and> list_all (\<lambda>r. is_stamp (created_at r)) (notes \<lparr>next_id = 1, notes = []\<rparr>)
   \<and> live scenario first_run =
        [\<lparr>row_id = 2, entity_type = Photo, entity_id = ''123'',
           note_text = ''submit to group X'', created_at = ''2024-05-17 09:31:02''\<rparr>]
   \<and> (\<exists>res. getNotes Photo ''123'' (run scenario first_run) = Inr (res, run scenario first_run)
     \<and> set res = {r \<in> set (undeleted scenario (notes \<lparr>next_id = 1, notes = []\<rparr>)
                              @ live scenario first_run).
                     entity_type r = Photo \<and> entity_id r = ''123''}
     \<and> distinct res
     \<and> list_all (\<lambda>r. is_stamp (created_at r)) res
     \<and> sorted (rev (map created_at res))
     \<and> ((\<forall>r\<in>set (notes \<lparr>next_id = 1, notes = []\<rparr> @ added scenario first_run).
            \<not> (entity_type r = Photo \<and> entity_id r = ''123'')) \<longrightarrow> res = []))"
proof -
  have h1: "store_ok first_run" by (simp add: first_run_def initNotesDb_def save_def store_ok_def)
  have h2: "data first_run = Some \<lparr>next_id = 1, notes = []\<rparr>"
    by (simp add: first_run_def initNotesDb_def save_def)
  have h3: "counter_room first_run scenario"
    by (simp add: counter_room_def h2 scenario_def)
  have h4: "list_all clock_ok scenario"
    by (simp add: scenario_def t0_def t2_def)
  have h5: "list_all (\<lambda>r. is_stamp (created_at r)) (notes \<lparr>next_id = 1, notes = []\<rparr>)"
    by simp
  have e: "live scenario first_run =
        [\<lparr>row_id = 2, entity_type = Photo, entity_id = ''123'',
           note_text = ''submit to group X'', created_at = ''2024-05-17 09:31:02''\<rparr>]"
    by (simp add: scenario_def first_run_def initNotesDb_def save_def addNote_def
        undeleted_def Let_def stamp_t0 stamp_t2 incr_1 incr_2)
  show ?thesis
    by (intro conjI h1 h2 h3 h4 h5 e getNotes_live_notes_newest_first [OF h1 h2 h3 h4 h5])
qed

text \<open>
  Against C2 as it is stated: the counter is a number, and at \<open>2^53\<close> the increment
  leaves it where it is. On a store initialised from a file whose counter is
  \<open>2^53 - 1\<close>, three calls of \<open>addNote\<close> return the identifiers \<open>2^53 - 1\<close>, \<open>2^53\<close> and
  \<open>2^53\<close> again.
\<close>

theorem addNote_ids_repeat_counterexample:
  "map row_id (added [Add t0 Photo ''123'' ''check focus'', Add t1 Photo ''123'' ''crop'',
                      Add t2 Photo ''123'' ''submit to group X''] at_limit)
     = [9007199254740991, 9007199254740992, 9007199254740992]"
  by (simp add: at_limit_eq addNote_def save_def Let_def incr_limit)

text \<open>
  C2 (as amended). In every sequence of operations on an initialised store whose counter
  is at least \<open>-2^53\<close> and has room for the notes that the sequence adds (the counter
  plus their number is at most \<open>2^53\<close>), the identifiers of the notes that \<open>addNote\<close>
  returns are strictly increasing in the order of the calls, hence pairwise different;
  each is at least the counter of the starting store, so greater than every identifier
  stored or assigned before. The sequence may delete notes in between: an identifier is
  not assigned again after its note is deleted.
\<close>

theorem addNote_ids_strictly_increasing:
  assumes "store_ok w" and "data w = Some d" and "counter_room w xs"
  shows "sorted_wrt (<) (map row_id (added xs w))
     \<and> distinct (map row_id (added xs w))
     \<and> (\<forall>a\<in>set (added xs w). next_id d \<le> row_id a \<and> (\<forall>r\<in>set (notes d). row_id r < row_id a))"
proof -
  note a = added_ids [OF assms(1,3,2)]
  from a have s: "sorted_wrt (<) (map row_id (added xs w))" by simp
  then have dis: "distinct (map row_id (added xs w))"
    by (simp add: strict_sorted_iff)
  from store_okD [OF assms(1,2)] have below: "\<forall>r\<in>set (notes d). row_id r < next_id d" by simp
  have lower: "\<forall>a\<in>set (added xs w). next_id d \<le> row_id a \<and> (\<forall>r\<in>set (notes d). row_id r < row_id a)"
  proof
    fix x assume "x \<in> set (added xs w)"
    with a have le: "next_id d \<le> row_id x" by simp
    with below show "next_id d \<le> row_id x \<and> (\<forall>r\<in>set (notes d). row_id r < row_id x)"
      by fastforce
  qed
  show ?thesis by (intro conjI s dis lower)
qed

theorem addNote_ids_strictly_increasing_witness:
  "store_ok first_run \<and> data first_run = Some \<lparr>next_id = 1, notes = []\<rparr>
   \<and> counter_room first_run reuse_ops
   \<and> map row_id (added reuse_ops first_run) = [1, 2]
   \<and> (sorted_wrt (<) (map row_id (added reuse_ops first_run))
     \<and> distinct (map row_id (added reuse_ops first_run))
     \<and> list_all (\<lambda>a. next_id \<lparr>next_id = 1, notes = []\<rparr> \<le> row_id a
           \<and> (\<forall>r\<in>set (notes \<lparr>next_id = 1, notes = []\<rparr>). row_id r < row_id a))
         (added reuse_ops first_run))"
proof -
  have h1: "store_ok first_run"
    by (simp add: first_run_def initNotesDb_def save_def store_ok_def)
  have h2: "data first_run = Some \<lparr>next_id = 1, notes = []\<rparr>"
    by (simp add: first_run_def initNotesDb_def save_def)
  have h3: "counter_room first_run reuse_ops"
    by (simp add: counter_room_def h2 reuse_ops_def)
  have e: "map row_id (added reuse_ops first_run) = [1, 2]"
    by (simp add: reuse_ops_def first_run_def initNotesDb_def save_def addNote_def
        deleteNote_def splice1_def Let_def incr_1)
  have h4: "list_all (\<lambda>a. next_id \<lparr>next_id = 1, notes = []\<rparr> \<le> row_id a
           \<and> (\<forall>r\<in>set (notes \<lparr>next_id = 1, notes = []\<rparr>). row_id r < row_id a))
         (added reuse_ops first_run)"
    unfolding list_all_iff
    by (rule addNote_ids_strictly_increasing [OF h1 h2 h3, THEN conjunct2, THEN conjunct2])
  show ?thesis
    by (intro conjI h1 h2 h3 e h4 addNote_ids_strictly_increasing [OF h1 h2 h3, THEN conjunct1]
        addNote_ids_strictly_increasing [OF h1 h2 h3, THEN conjunct2, THEN conjunct1])
qed



text \<open>
  Against C4 as it is stated: once the counter is \<open>2^53\<close>, \<open>addNote\<close> gives the same
  identifier to every new note. In such a store a note is added and deleted, and
  \<open>deleteNote\<close> returns true; another note is added, and \<open>deleteNote\<close> with the same
  identifier returns true a second time.
\<close>

theorem deleteNote_true_again_counterexample:
  "deleteNote 9007199254740992 (run [Add t1 Album ''77'' ''cover''] saturated)
     = Inr (True, saturated)
   \<and> deleteNote 9007199254740992
        (run [Add t1 Album ''77'' ''cover'', Delete 9007199254740992,
              Add t2 Group ''g1'' ''submit''] saturated)
     = Inr (True, saturated)"
  by (simp add: saturated_eq addNote_def deleteNote_def save_def Let_def splice1_def
      incr_limit)

text \<open>
  C4 (as amended). On an initialised store \<open>deleteNote k\<close> never throws. It returns true
  when a note with identifier \<open>k\<close> is stored, and the store then holds the other notes;
  it returns false when none is stored, and the state is then unchanged. After a note
  is added while the counter is between \<open>-2^53\<close> and \<open>2^53 - 1\<close>, the first \<open>deleteNote\<close>
  with its identifier returns true, and every later one returns false, whatever
  operations come in between.
\<close>

theorem deleteNote_true_once:
  assumes "store_ok w" and "data w = Some d"
  shows "((\<exists>r\<in>set (notes d). row_id r = k) \<longrightarrow>
            (\<exists>w'. deleteNote k w = Inr (True, w')
               \<and> data w' = Some (d\<lparr>notes := filter (\<lambda>r. row_id r \<noteq> k) (notes d)\<rparr>)))
     \<and> ((\<forall>r\<in>set (notes d). row_id r \<noteq> k) \<longrightarrow> deleteNote k w = Inr (False, w))
     \<and> (\<forall>w'. deleteNote k w = Inr (False, w') \<longrightarrow> w' = w)
     \<and> (- 9007199254740992 \<le> next_id d \<and> next_id d < 9007199254740992 \<longrightarrow>
          (\<exists>row w1 w2. addNote now t i n w = Inr (row, w1)
             \<and> deleteNote (row_id row) w1 = Inr (True, w2)
             \<and> (\<forall>xs. deleteNote (row_id row) (run xs w2) = Inr (False, run xs w2))))"
proof -
  note ok = store_okD [OF assms]
  have p1: "(\<exists>r\<in>set (notes d). row_id r = k) \<longrightarrow>
            (\<exists>w'. deleteNote k w = Inr (True, w')
               \<and> data w' = Some (d\<lparr>notes := filter (\<lambda>r. row_id r \<noteq> k) (notes d)\<rparr>))"
  proof
    assume ex: "\<exists>r\<in>set (notes d). row_id r = k"
    from ok have dis: "distinct (map row_id (notes d))" by simp
    show "\<exists>w'. deleteNote k w = Inr (True, w')
               \<and> data w' = Some (d\<lparr>notes := filter (\<lambda>r. row_id r \<noteq> k) (notes d)\<rparr>)"
      by (simp add: deleteNote_present [OF assms(2) dis ex])
  qed
  have p2: "(\<forall>r\<in>set (notes d). row_id r \<noteq> k) \<longrightarrow> deleteNote k w = Inr (False, w)"
    using deleteNote_missing [OF assms(2)] by blast
  have p3: "\<forall>w'. deleteNote k w = Inr (False, w') \<longrightarrow> w' = w"
    using assms(2) by (auto simp: deleteNote_def split: option.splits)
  have p4: "- 9007199254740992 \<le> next_id d \<and> next_id d < 9007199254740992 \<longrightarrow>
          (\<exists>row w1 w2. addNote now t i n w = Inr (row, w1)
             \<and> deleteNote (row_id row) w1 = Inr (True, w2)
             \<and> (\<forall>xs. deleteNote (row_id row) (run xs w2) = Inr (False, run xs w2)))"
  proof
    assume "- 9007199254740992 \<le> next_id d \<and> next_id d < 9007199254740992"
    then have inc: "incr (next_id d) = next_id d + 1" by (simp add: incr_exact)
    let ?row = "\<lparr>row_id = next_id d, entity_type = t, entity_id = i, note_text = n,
                 created_at = stamp now\<rparr>"
    let ?d1 = "\<lparr>next_id = incr (next_id d), notes = notes d @ [?row]\<rparr>"
    let ?w1 = "w\<lparr>data := Some ?d1, json_file := Some ?d1\<rparr>"
    let ?d2 = "?d1\<lparr>notes := filter (\<lambda>r. row_id r \<noteq> next_id d) (notes ?d1)\<rparr>"
    let ?w2 = "?w1\<lparr>data := Some ?d2, json_file := Some ?d2\<rparr>"
    have a: "addNote now t i n w = Inr (?row, ?w1)"
      by (rule addNote_Some [OF assms(2)])
    have dw1: "data ?w1 = Some ?d1" by simp
    have dis1: "distinct (map row_id (notes ?d1))" using ok by auto
    have ex1: "\<exists>r\<in>set (notes ?d1). row_id r = next_id d" by simp
    have del: "deleteNote (row_id ?row) ?w1 = Inr (True, ?w2)"
      using deleteNote_present [OF dw1 dis1 ex1] by simp
    have dw2: "data ?w2 = Some ?d2" by simp
    have fw2: "json_file ?w2 = Some ?d2" by simp
    have lt: "next_id d < next_id ?d2" using inc by simp
    have gone: "\<forall>r\<in>set (notes ?d2). row_id r \<noteq> next_id d" by simp
    have later: "\<forall>xs. deleteNote (row_id ?row) (run xs ?w2) = Inr (False, run xs ?w2)"
    proof
      fix xs
      from retired_run [OF dw2 fw2 lt gone, of xs] obtain d' where
        d': "data (run xs ?w2) = Some d'" "\<forall>r\<in>set (notes d'). row_id r \<noteq> next_id d" by blast
      from deleteNote_missing [OF d']
      show "deleteNote (row_id ?row) (run xs ?w2) = Inr (False, run xs ?w2)" by simp
    qed
    show "\<exists>row w1 w2. addNote now t i n w = Inr (row, w1)
           \<and> deleteNote (row_id row) w1 = Inr (True, w2)
           \<and> (\<forall>xs. deleteNote (row_id row) (run xs w2) = Inr (False, run xs w2))"
      by (intro exI conjI) (rule a, rule del, rule later)
  qed
  show ?thesis by (intro conjI p1 p2 p3 p4)
qed

theorem deleteNote_true_once_witness:
  "store_ok one_note \<and> data one_note = Some \<lparr>next_id = 2, notes = [row1]\<rparr>
   \<and> (\<exists>r\<in>set (notes \<lparr>next_id = 2, notes = [row1]\<rparr>). row_id r = 1)
   \<and> (\<exists>w'. deleteNote 1 one_note = Inr (True, w')
         \<and> data w' = Some (\<lparr>next_id = 2, notes = [row1]\<rparr>
              \<lparr>notes := filter (\<lambda>r. row_id r \<noteq> 1) (notes \<lparr>next_id = 2, notes = [row1]\<rparr>)\<rparr>))
   \<and> deleteNote 9 one_note = Inr (False, one_note)
   \<and> - 9007199254740992 \<le> next_id \<lparr>next_id = 2, notes = [row1]\<rparr>
   \<and> next_id \<lparr>next_id = 2, notes = [row1]\<rparr> < 9007199254740992
   \<and> (\<exists>row w1 w2. addNote t1 Album ''77'' ''cover'' one_note = Inr (row, w1)
         \<and> deleteNote (row_id row) w1 = Inr (True, w2)
         \<and> (\<forall>xs. deleteNote (row_id row) (run xs w2) = Inr (False, run xs w2)))"
proof -
  have h1: "store_ok one_note" by (rule store_ok_one_note)
  have h2: "data one_note = Some \<lparr>next_id = 2, notes = [row1]\<rparr>" by (rule data_one_note)
  have ex: "\<exists>r\<in>set (notes \<lparr>next_id = 2, notes = [row1]\<rparr>). row_id r = 1"
    by (simp add: row1_def)
  have no: "\<forall>r\<in>set (notes \<lparr>next_id = 2, notes = [row1]\<rparr>). row_id r \<noteq> 9"
    by (simp add: row1_def)
  have lo: "- 9007199254740992 \<le> next_id \<lparr>next_id = 2, notes = [row1]\<rparr>" by simp
  have hi: "next_id \<lparr>next_id = 2, notes = [row1]\<rparr> < 9007199254740992" by simp
  note thm1 = deleteNote_true_once [OF h1 h2, where k = 1 and now = t1 and t = Album
      and i = "''77''" and n = "''cover''"]
  note thm9 = deleteNote_true_once [OF h1 h2, where k = 9 and now = t1 and t = Album
      and i = "''77''" and n = "''cover''"]
  note a = thm1 [THEN conjunct1, THEN mp, OF ex]
  note b = thm9 [THEN conjunct2, THEN conjunct1, THEN mp, OF no]
  note c = thm1 [THEN conjunct2, THEN conjunct2, THEN conjunct2, THEN mp, OF conjI [OF lo hi]]
  show ?thesis by (intro conjI h1 h2 ex a b lo hi c)
qed

text \<open>
  C5. The tool \<^verbatim>\<open>flickr_add_note\<close> refuses a call whose note is the empty string or
  whose entity type is not one of \<^verbatim>\<open>photo\<close>, \<^verbatim>\<open>album\<close>, \<^verbatim>\<open>group\<close>: the schema fails with a
  validation error before the handler and \<open>addNote\<close> run, so the state is the one
  before the call and no note is created.
\<close>

theorem add_note_checked_by_tool_schema:
  "(note_arg = [] \<or> entity_type_arg \<notin> {''photo'', ''album'', ''group''}) \<longrightarrow>
     flickr_add_note now entity_type_arg entity_id_arg note_arg w = (Inl ValidationError, w)"
  by (auto simp: flickr_add_note_def entity_type_enum_def)

theorem add_note_checked_by_tool_schema_witness:
  "flickr_add_note t0 ''photo'' ''123'' [] first_run = (Inl ValidationError, first_run)
   \<and> flickr_add_note t0 ''video'' ''123'' ''check focus'' first_run
        = (Inl ValidationError, first_run)"
proof -
  have a: "flickr_add_note t0 ''photo'' ''123'' [] first_run = (Inl ValidationError, first_run)"
    using add_note_checked_by_tool_schema
      [where note_arg = "[]" and entity_type_arg = "''photo''" and now = t0
         and entity_id_arg = "''123''" and w = first_run]
    by simp
  have b: "flickr_add_note t0 ''video'' ''123'' ''check focus'' first_run
        = (Inl ValidationError, first_run)"
    using add_note_checked_by_tool_schema
      [where note_arg = "''check focus''" and entity_type_arg = "''video''" and now = t0
         and entity_id_arg = "''123''" and w = first_run]
    by simp
  show ?thesis by (intro conjI a b)
qed

text \<open>
  C6. After \<open>addNote\<close> has returned a note, a new process on the same file has the
  store the old one had: \<open>getNotes\<close> of the note's pair returns in it what it returned
  before the restart, and the only note of the result with the returned identifier is
  the returned note itself, with its text and its timestamp.
\<close>

theorem note_survives_restart:
  assumes "store_ok w" and "addNote now t i n w = Inr (row, w1)"
  shows "restart w1 = w1
     \<and> (\<exists>res. getNotes t i (restart w1) = Inr (res, restart w1)
           \<and> getNotes t i w1 = Inr (res, w1)
           \<and> filter (\<lambda>r. row_id r = row_id row) res = [row])"
proof -
  from assms(1) obtain d where d: "data w = Some d" using store_ok_data by blast
  note ok = store_okD [OF assms(1) d]
  let ?d1 = "\<lparr>next_id = incr (next_id d), notes = notes d @ [row]\<rparr>"
  from assms(2) have row: "row = \<lparr>row_id = next_id d, entity_type = t, entity_id = i,
      note_text = n, created_at = stamp now\<rparr>"
    by (auto simp: addNote_Some [OF d])
  from assms(2) have w1: "w1 = w\<lparr>data := Some ?d1, json_file := Some ?d1\<rparr>"
    by (auto simp: addNote_Some [OF d])
  have d1: "data w1 = Some ?d1" and f1: "json_file w1 = Some ?d1"
    by (simp_all add: w1)
  have dis: "distinct (map row_id (notes ?d1))" using ok by (auto simp: row)
  have re: "restart w1 = w1"
    using d1 f1 by (simp add: restart_def initNotesDb_def)
  have mem: "row \<in> set (notes ?d1)" "entity_type row = t" "entity_id row = i"
    by (simp_all add: row)
  let ?res = "sort_cmp by_created_at_desc
      (filter (\<lambda>n. entity_type n = t \<and> entity_id n = i) (notes ?d1))"
  have g: "getNotes t i w1 = Inr (?res, w1)" by (rule getNotes_Some [OF d1])
  have inres: "row \<in> set ?res" using mem by (simp add: set_sort_cmp)
  have "mset (map row_id ?res)
      = mset (map row_id (filter (\<lambda>n. entity_type n = t \<and> entity_id n = i) (notes ?d1)))"
    by (simp only: mset_map mset_sort_cmp)
  then have "distinct (map row_id ?res)
      = distinct (map row_id (filter (\<lambda>n. entity_type n = t \<and> entity_id n = i) (notes ?d1)))"
    by (rule mset_eq_imp_distinct_iff)
  moreover have "distinct (map row_id
      (filter (\<lambda>n. entity_type n = t \<and> entity_id n = i) (notes ?d1)))"
    using dis by (rule distinct_map_filter)
  ultimately have "distinct (map row_id ?res)" by simp
  then have one: "filter (\<lambda>r. row_id r = row_id row) ?res = [row]"
    using inres by (rule filter_key_unique)
  show ?thesis
    using re g one by simp
qed

theorem note_survives_restart_witness:
  "store_ok first_run
   \<and> addNote t0 Photo ''123'' ''check focus'' first_run = Inr (row1, one_note)
   \<and> restart one_note = one_note
   \<and> (\<exists>res. getNotes Photo ''123'' (restart one_note) = Inr (res, restart one_note)
         \<and> getNotes Photo ''123'' one_note = Inr (res, one_note)
         \<and> filter (\<lambda>r. row_id r = row_id row1) res = [row1])"
proof -
  have h1: "store_ok first_run"
    by (simp add: first_run_def initNotesDb_def save_def store_ok_def)
  have h2: "addNote t0 Photo ''123'' ''check focus'' first_run = Inr (row1, one_note)"
    by (simp add: one_note_eq row1_def first_run_def initNotesDb_def save_def addNote_def
        Let_def stamp_t0 incr_1)
  note c = note_survives_restart [OF h1 h2]
  show ?thesis by (intro conjI h1 h2 c [THEN conjunct1] c [THEN conjunct2])
qed

text \<open>
  C7. A stored note stays in the store, with all its fields as they are, through every
  sequence of operations that does not delete its identifier; it is the only note with
  that identifier, and \<open>getNotes\<close> with its entity pair returns it. \<open>getNotes\<close> and
  \<open>searchNotes\<close> return the state they were given.
\<close>

theorem notes_immutable_until_deleted:
  assumes "store_ok w" and "data w = Some d" and "r \<in> set (notes d)"
    and "Delete (row_id r) \<notin> set xs"
  shows "\<exists>d' res. data (run xs w) = Some d' \<and> r \<in> set (notes d')
       \<and> (\<forall>r'\<in>set (notes d'). row_id r' = row_id r \<longrightarrow> r' = r)
       \<and> getNotes (entity_type r) (entity_id r) (run xs w) = Inr (res, run xs w)
       \<and> r \<in> set res
       \<and> (\<exists>res'. getNotes t i w = Inr (res', w))
       \<and> (\<exists>res'. searchNotes q w = Inr (res', w))"
proof -
  from store_okD [OF assms(1,2)] have f: "json_file w = Some d"
    and below: "\<forall>r\<in>set (notes d). row_id r < next_id d"
    and dis: "distinct (map row_id (notes d))" by simp_all
  from below assms(3) have lt: "row_id r < next_id d" by simp
  from dis have "inj_on row_id (set (notes d))" by (simp add: distinct_map)
  with assms(3) have only: "\<forall>r'\<in>set (notes d). row_id r' = row_id r \<longrightarrow> r' = r"
    by (auto dest: inj_onD)
  from kept_run [OF assms(2) f assms(3) lt only assms(4)] obtain d' where
    d': "data (run xs w) = Some d'" and mem: "r \<in> set (notes d')"
    and uniq: "\<forall>r'\<in>set (notes d'). row_id r' = row_id r \<longrightarrow> r' = r" by blast
  let ?res = "sort_cmp by_created_at_desc
      (filter (\<lambda>n. entity_type n = entity_type r \<and> entity_id n = entity_id r) (notes d'))"
  have g: "getNotes (entity_type r) (entity_id r) (run xs w) = Inr (?res, run xs w)"
    by (rule getNotes_Some [OF d'])
  have inres: "r \<in> set ?res" using mem by (simp add: set_sort_cmp)
  have g0: "\<exists>res'. getNotes t i w = Inr (res', w)"
    by (simp add: getNotes_Some [OF assms(2)])
  have s0: "\<exists>res'. searchNotes q w = Inr (res', w)"
    by (simp add: searchNotes_Some [OF assms(2)])
  show ?thesis
    by (rule exI [of _ d'], rule exI [of _ ?res]) (intro conjI d' mem uniq g inres g0 s0)
qed

theorem notes_immutable_until_deleted_witness:
  "store_ok one_note \<and> data one_note = Some \<lparr>next_id = 2, notes = [row1]\<rparr>
   \<and> row1 \<in> set (notes \<lparr>next_id = 2, notes = [row1]\<rparr>)
   \<and> Delete (row_id row1) \<notin> set other_ops
   \<and> (\<exists>d' res. data (run other_ops one_note) = Some d' \<and> row1 \<in> set (notes d')
       \<and> (\<forall>r'\<in>set (notes d'). row_id r' = row_id row1 \<longrightarrow> r' = row1)
       \<and> getNotes (entity_type row1) (entity_id row1) (run other_ops one_note)
            = Inr (res, run other_ops one_note)
       \<and> row1 \<in> set res
       \<and> (\<exists>res'. getNotes Album ''77'' one_note = Inr (res', one_note))
       \<and> (\<exists>res'. searchNotes ''FOCUS'' one_note = Inr (res', one_note)))"
proof -
  have h1: "store_ok one_note" by (rule store_ok_one_note)
  have h2: "data one_note = Some \<lparr>next_id = 2, notes = [row1]\<rparr>" by (rule data_one_note)
  have h3: "row1 \<in> set (notes \<lparr>next_id = 2, notes = [row1]\<rparr>)" by simp
  have h4: "Delete (row_id row1) \<notin> set other_ops" by (simp add: other_ops_def row1_def)
  show ?thesis
    by (intro conjI h1 h2 h3 h4 notes_immutable_until_deleted [OF h1 h2 h3 h4])
qed



text \<open>
  Against C9 as it is stated: once the counter is \<open>2^53\<close>, two calls of \<open>addNote\<close> with
  the same arguments return the same identifier, and in the same second the same note,
  twice.
\<close>

theorem addNote_same_id_counterexample:
  "added [Add t1 Album ''77'' ''cover'', Add t1 Album ''77'' ''cover''] saturated
     = [\<lparr>row_id = 9007199254740992, entity_type = Album, entity_id = ''77'',
          note_text = ''cover'', created_at = ''2024-05-17 09:30:15''\<rparr>,
        \<lparr>row_id = 9007199254740992, entity_type = Album, entity_id = ''77'',
          note_text = ''cover'', created_at = ''2024-05-17 09:30:15''\<rparr>]"
  by (simp add: saturated_eq addNote_def save_def Let_def stamp_t1 incr_limit)

text \<open>
  C9 (as amended). \<open>addNote\<close> does not look for an equal note: on an initialised store
  whose counter is between \<open>-2^53\<close> and \<open>2^53 - 1\<close>, two calls with the same entity
  type, entity id and text both succeed and append two notes with consecutive,
  different identifiers, and \<open>getNotes\<close> of the pair returns both.
\<close>

theorem addNote_no_deduplication:
  assumes "data w = Some d"
    and "- 9007199254740992 \<le> next_id d" and "next_id d < 9007199254740992"
  shows "\<exists>r1 w1 r2 w2 d2 res.
       addNote now1 t i n w = Inr (r1, w1) \<and> addNote now2 t i n w1 = Inr (r2, w2)
     \<and> row_id r2 = row_id r1 + 1 \<and> row_id r1 \<noteq> row_id r2 \<and> r1 \<noteq> r2
     \<and> data w2 = Some d2 \<and> notes d2 = notes d @ [r1, r2]
     \<and> getNotes t i w2 = Inr (res, w2) \<and> r1 \<in> set res \<and> r2 \<in> set res"
proof -
  from assms(2,3) have inc: "incr (next_id d) = next_id d + 1" by (rule incr_exact)
  let ?r1 = "\<lparr>row_id = next_id d, entity_type = t, entity_id = i, note_text = n,
              created_at = stamp now1\<rparr>"
  let ?d1 = "\<lparr>next_id = next_id d + 1, notes = notes d @ [?r1]\<rparr>"
  let ?w1 = "w\<lparr>data := Some ?d1, json_file := Some ?d1\<rparr>"
  let ?r2 = "\<lparr>row_id = next_id d + 1, entity_type = t, entity_id = i, note_text = n,
              created_at = stamp now2\<rparr>"
  let ?d2 = "\<lparr>next_id = incr (next_id d + 1), notes = (notes d @ [?r1]) @ [?r2]\<rparr>"
  let ?w2 = "?w1\<lparr>data := Some ?d2, json_file := Some ?d2\<rparr>"
  let ?res = "sort_cmp by_created_at_desc
      (filter (\<lambda>n. entity_type n = t \<and> entity_id n = i) (notes ?d2))"
  have a1: "addNote now1 t i n w = Inr (?r1, ?w1)"
    using addNote_Some [OF assms(1), of now1 t i n] inc by simp
  have dw1: "data ?w1 = Some ?d1" by simp
  have a2: "addNote now2 t i n ?w1 = Inr (?r2, ?w2)"
    using addNote_Some [OF dw1, of now2 t i n] by simp
  have dw2: "data ?w2 = Some ?d2" by simp
  have g: "getNotes t i ?w2 = Inr (?res, ?w2)"
    by (rule getNotes_Some [OF dw2])
  have ids: "row_id ?r2 = row_id ?r1 + 1" "row_id ?r1 \<noteq> row_id ?r2" by simp_all
  have ne: "?r1 \<noteq> ?r2" by simp
  have nn: "notes ?d2 = notes d @ [?r1, ?r2]" by simp
  have m1: "?r1 \<in> set ?res" by (simp add: set_sort_cmp)
  have m2: "?r2 \<in> set ?res" by (simp add: set_sort_cmp)
  show ?thesis
    by (rule exI [of _ ?r1], rule exI [of _ ?w1], rule exI [of _ ?r2], rule exI [of _ ?w2],
        rule exI [of _ ?d2], rule exI [of _ ?res])
       (intro conjI a1 a2 ids ne dw2 nn g m1 m2)
qed

theorem addNote_no_deduplication_witness:
  "data first_run = Some \<lparr>next_id = 1, notes = []\<rparr>
   \<and> - 9007199254740992 \<le> next_id \<lparr>next_id = 1, notes = []\<rparr>
   \<and> next_id \<lparr>next_id = 1, notes = []\<rparr> < 9007199254740992
   \<and> (\<exists>r1 w1 r2 w2 d2 res.
       addNote t0 Photo ''123'' ''check focus'' first_run = Inr (r1, w1)
     \<and> addNote t0 Photo ''123'' ''check focus'' w1 = Inr (r2, w2)
     \<and> row_id r2 = row_id r1 + 1 \<and> row_id r1 \<noteq> row_id r2 \<and> r1 \<noteq> r2
     \<and> data w2 = Some d2 \<and> notes d2 = notes \<lparr>next_id = 1, notes = []\<rparr> @ [r1, r2]
     \<and> getNotes Photo ''123'' w2 = Inr (res, w2) \<and> r1 \<in> set res \<and> r2 \<in> set res)"
proof -
  have h: "data first_run = Some \<lparr>next_id = 1, notes = []\<rparr>"
    by (simp add: first_run_def initNotesDb_def save_def)
  have lo: "- 9007199254740992 \<le> next_id \<lparr>next_id = 1, notes = []\<rparr>" by simp
  have hi: "next_id \<lparr>next_id = 1, notes = []\<rparr> < 9007199254740992" by simp
  show ?thesis by (intro conjI h lo hi addNote_no_deduplication [OF h lo hi])
qed

text \<open>
  C10. For an identifier that no stored note has, \<open>deleteNote\<close> returns false without
  throwing and without changing the state, and the tool \<^verbatim>\<open>flickr_delete_note\<close> answers
  with the one text \<^verbatim>\<open>Note #<id> not found.\<close> and \<^verbatim>\<open>isError\<close> set. The identifier is an
  integer between \<open>-2^53\<close> and \<open>2^53\<close>, which the text shows by its decimal digits.
\<close>

theorem flickr_delete_note_missing_is_error:
  assumes "data w = Some d" and "\<forall>r\<in>set (notes d). row_id r \<noteq> k"
    and "- 9007199254740992 < k" and "k < 9007199254740992"
  shows "deleteNote k w = Inr (False, w)
     \<and> flickr_delete_note k w =
         (\<lparr>content = [''Note #'' @ show_int k @ '' not found.''], isError = True\<rparr>, w)"
proof -
  have del: "deleteNote k w = Inr (False, w)"
    by (rule deleteNote_missing [OF assms(1,2)])
  then show ?thesis by (simp add: flickr_delete_note_def)
qed

theorem flickr_delete_note_missing_is_error_witness:
  "data one_note = Some \<lparr>next_id = 2, notes = [row1]\<rparr>
   \<and> list_all (\<lambda>r. row_id r \<noteq> 42) (notes \<lparr>next_id = 2, notes = [row1]\<rparr>)
   \<and> - 9007199254740992 < (42::int) \<and> (42::int) < 9007199254740992
   \<and> deleteNote 42 one_note = Inr (False, one_note)
   \<and> flickr_delete_note 42 one_note =
        (\<lparr>content = [''Note #42 not found.''], isError = True\<rparr>, one_note)"
proof -
  have h1: "data one_note = Some \<lparr>next_id = 2, notes = [row1]\<rparr>" by (rule data_one_note)
  have h2: "\<forall>r\<in>set (notes \<lparr>next_id = 2, notes = [row1]\<rparr>). row_id r \<noteq> 42"
    by (simp add: row1_def)
  have h2': "list_all (\<lambda>r. row_id r \<noteq> 42) (notes \<lparr>next_id = 2, notes = [row1]\<rparr>)"
    by (simp add: row1_def)
  have lo: "- 9007199254740992 < (42::int)" by simp
  have hi: "(42::int) < 9007199254740992" by simp
  have s: "show_int 42 = ''42''" by (simp add: show_int_def digit_def)
  from flickr_delete_note_missing_is_error [OF h1 h2 lo hi] s
  have c: "deleteNote 42 one_note = Inr (False, one_note)
     \<and> flickr_delete_note 42 one_note =
        (\<lparr>content = [''Note #42 not found.''], isError = True\<rparr>, one_note)" by simp
  show ?thesis by (intro conjI h1 h2' lo hi c [THEN conjunct1] c [THEN conjunct2])
qed

end
